theory Spec2Isabelle
  imports Main "HOL-Library.Product_Lexorder" "HOL-Library.Char_ord" "HOL-Library.List_Lexorder"
begin

section \<open>Data model\<close>

text \<open>
  An interval is the triple (begin, end, data) of the interval index; Python integers are
  unbounded, hence \<open>int\<close>. The stored values are opaque; they come from a linearly ordered
  type wherever the code sorts intervals, because the sort compares (begin, end) first and
  the data last.
\<close>

type_synonym 'a interval = "int \<times> int \<times> 'a"

type_synonym 'a tree = "'a interval set"

definition iv_begin :: "'a interval \<Rightarrow> int" where
  "iv_begin iv = fst iv"

definition iv_end :: "'a interval \<Rightarrow> int" where
  "iv_end iv = fst (snd iv)"

definition iv_data :: "'a interval \<Rightarrow> 'a" where
  "iv_data iv = snd (snd iv)"

definition is_null :: "'a interval \<Rightarrow> bool" where
  "is_null iv = (iv_begin iv \<ge> iv_end iv)"

datatype error = KeyError | ValueError | TypeError | IndexError | AttributeError

text \<open>
  The key shapes the methods dispatch on: an integer, a string label, a tuple of integers,
  any other iterable of integers (a list), and a slice whose three fields may be None.
\<close>

datatype key =
    KInt int
  | KStr string
  | KTuple "int list"
  | KList "int list"
  | KSlice "int option" "int option" "int option"

text \<open>
  What a lookup returns: one stored value, a list of stored values, or a list of clipped
  intervals.
\<close>

datatype 'a result = Data 'a | DataList "'a list" | Clipped "'a interval list"

section \<open>The interval index\<close>

text \<open>
  Modelled from the spec: the Interval Index is a library primitive (the intervaltree
  package) whose code is not part of the repository. It stores a set of
  (begin, end, value) ranges, supports point and overlap queries, and removal/splitting
  ("chop") of a sub-range across all stored intervals: chop removes a sub-range's coverage
  from the index, splitting any interval that only partially overlaps it. The definitions
  follow the operations of that package the repository calls: \<open>at\<close>, \<open>overlap\<close>,
  \<open>envelop\<close>, \<open>chop\<close>, \<open>addi\<close>, \<open>begin\<close>, \<open>end\<close>. First \<open>at(p)\<close>, the stored
  intervals that cover the point p.
\<close>

definition tree_at :: "int \<Rightarrow> 'a tree \<Rightarrow> 'a tree" where
  "tree_at p t = Set.filter (\<lambda>iv. iv_begin iv \<le> p \<and> p < iv_end iv) t"

text \<open>
  Modelled from the spec: \<open>overlap(begin, end)\<close> of the interval index, the stored intervals
  that overlap [begin, end); an empty or inverted range overlaps nothing.
\<close>

definition tree_overlap :: "int \<Rightarrow> int \<Rightarrow> 'a tree \<Rightarrow> 'a tree" where
  "tree_overlap b e t =
     (if b \<ge> e then {} else Set.filter (\<lambda>iv. iv_begin iv < e \<and> b < iv_end iv) t)"

text \<open>
  Modelled from the spec: \<open>envelop(begin, end)\<close> of the interval index, the stored intervals
  that lie completely within [begin, end).
\<close>

definition tree_envelop :: "int \<Rightarrow> int \<Rightarrow> 'a tree \<Rightarrow> 'a tree" where
  "tree_envelop b e t =
     (if b \<ge> e then {} else Set.filter (\<lambda>iv. b \<le> iv_begin iv \<and> iv_end iv \<le> e) t)"

text \<open>
  Modelled from the spec: \<open>chop(begin, end)\<close> of the interval index. The intervals within
  the range are removed; an interval hanging into the range over its begin is trimmed to
  end at begin, one hanging into it over its end is trimmed to begin at end, and one that
  spans the range is split into both pieces.
\<close>

definition tree_chop :: "int \<Rightarrow> int \<Rightarrow> 'a tree \<Rightarrow> 'a tree" where
  "tree_chop b e t =
     (let begin_hits = Set.filter (\<lambda>iv. iv_begin iv < b) (tree_at b t);
          end_hits = Set.filter (\<lambda>iv. iv_end iv > e) (tree_at e t);
          insertions = (\<lambda>iv. (iv_begin iv, b, iv_data iv)) ` begin_hits
                     \<union> (\<lambda>iv. (e, iv_end iv, iv_data iv)) ` end_hits
      in (((t - tree_envelop b e t) - begin_hits) - end_hits) \<union> insertions)"

text \<open>
  Modelled from the spec: \<open>addi(begin, end, data)\<close> of the interval index.
  Adding an interval that is already stored does nothing; a null interval (begin \<ge> end) is
  refused with ValueError.
\<close>

definition tree_addi :: "int \<Rightarrow> int \<Rightarrow> 'a \<Rightarrow> 'a tree \<Rightarrow> error option \<times> 'a tree" where
  "tree_addi b e v t =
     (if (b, e, v) \<in> t then (None, t)
      else if is_null (b, e, v) then (Some ValueError, t)
      else (None, insert (b, e, v) t))"

text \<open>
  Modelled from the spec: \<open>begin()\<close> and \<open>end()\<close> of the interval index, the least and the
  greatest bound of the stored intervals, and 0 for an empty index.
\<close>

definition tree_begin :: "'a tree \<Rightarrow> int" where
  "tree_begin t = (if t = {} then 0 else Min (iv_begin ` t \<union> iv_end ` t))"

definition tree_end :: "'a tree \<Rightarrow> int" where
  "tree_end t = (if t = {} then 0 else Max (iv_begin ` t \<union> iv_end ` t))"

text \<open>
  Modelled from the spec: the constructor of the interval index. Building an index from a
  sequence of intervals refuses null intervals.
\<close>

definition tree_of :: "'a interval list \<Rightarrow> error + 'a tree" where
  "tree_of ivs = (if list_ex is_null ivs then Inl ValueError else Inr (set ivs))"

section \<open>Python built-ins used by the labels\<close>

definition digit_char :: "nat \<Rightarrow> char" where
  "digit_char d = char_of (48 + d)"

fun digits :: "nat \<Rightarrow> string" where
  "digits n = (if n < 10 then [digit_char n] else digits (n div 10) @ [digit_char (n mod 10)])"

declare digits.simps [simp del]

text \<open>\<open>str\<close> of an integer: decimal digits, with a minus sign for a negative number.\<close>

definition py_str :: "int \<Rightarrow> string" where
  "py_str i = (if i < 0 then CHR ''-'' # digits (nat (- i)) else digits (nat i))"

text \<open>\<open>s.split(c)\<close> for a one-character separator: the pieces between the separators.\<close>

fun split_on :: "char \<Rightarrow> string \<Rightarrow> string list" where
  "split_on c [] = [[]]"
| "split_on c (x # xs) =
     (if x = c then [] # split_on c xs
      else (case split_on c xs of [] \<Rightarrow> [[x]] | p # ps \<Rightarrow> (x # p) # ps))"

definition is_digit :: "char \<Rightarrow> bool" where
  "is_digit c = (48 \<le> (of_char c :: nat) \<and> (of_char c :: nat) \<le> 57)"

definition is_space :: "char \<Rightarrow> bool" where
  "is_space c = ((of_char c :: nat) = 32 \<or> (9 \<le> (of_char c :: nat) \<and> (of_char c :: nat) \<le> 13))"

definition strip :: "string \<Rightarrow> string" where
  "strip s = rev (dropWhile is_space (rev (dropWhile is_space s)))"

text \<open>
  The digit part of an integer literal: digits, with single underscores allowed between
  digits only.
\<close>

fun digit_groups_ok :: "string \<Rightarrow> bool" where
  "digit_groups_ok s = list_all (\<lambda>g. g \<noteq> [] \<and> list_all is_digit g) (split_on (CHR ''_'') s)"

definition digits_value :: "string \<Rightarrow> nat" where
  "digits_value s =
     foldl (\<lambda>acc c. 10 * acc + ((of_char c :: nat) - 48)) 0 (filter (\<lambda>c. c \<noteq> CHR ''_'') s)"

text \<open>
  \<open>int(s)\<close> for a string: surrounding whitespace is dropped, one sign is allowed, the rest
  must be a digit part; anything else raises ValueError.
\<close>

definition py_int :: "string \<Rightarrow> error + int" where
  "py_int s =
     (let s1 = strip s;
          neg = (s1 \<noteq> [] \<and> hd s1 = CHR ''-'');
          s2 = (if s1 \<noteq> [] \<and> (hd s1 = CHR ''-'' \<or> hd s1 = CHR ''+'') then tl s1 else s1)
      in if digit_groups_ok s2
         then Inr (if neg then - int (digits_value s2) else int (digits_value s2))
         else Inl ValueError)"

fun map_int :: "string list \<Rightarrow> error + int list" where
  "map_int [] = Inr []"
| "map_int (s # ss) =
     (case py_int s of
        Inl err \<Rightarrow> Inl err
      | Inr i \<Rightarrow> (case map_int ss of Inl err \<Rightarrow> Inl err | Inr is \<Rightarrow> Inr (i # is)))"

text \<open>\<open>range(start, stop, step)\<close> as a list; a zero step raises ValueError.\<close>

definition range_len :: "int \<Rightarrow> int \<Rightarrow> int \<Rightarrow> nat" where
  "range_len start stop step =
     (if step > 0 then nat ((stop - start + step - 1) div step)
      else nat ((start - stop - step - 1) div (- step)))"

definition py_range :: "int \<Rightarrow> int \<Rightarrow> int \<Rightarrow> error + int list" where
  "py_range start stop step =
     (if step = 0 then Inl ValueError
      else Inr (map (\<lambda>i. start + int i * step) [0 ..< range_len start stop step]))"

section \<open>IntervalConfig\<close>

text \<open>
  The state of an IntervalConfig that the methods below read and write is its interval
  index \<open>_tree\<close>. A method that mutates returns the error it raised, if any, with the
  index as the method left it; a method that only reads returns its error or its value.
\<close>

definition key_to_label :: "int list \<Rightarrow> error + string" where
  "key_to_label k =
     (if length k < 2 then Inl IndexError else Inr (py_str (k ! 0) @ ''-'' @ py_str (k ! 1)))"

definition label_to_key :: "string \<Rightarrow> error + int list" where
  "label_to_key label = map_int (split_on (CHR ''-'') label)"

definition cfg_value :: "int \<Rightarrow> ('a::linorder) tree \<Rightarrow> error + 'a" where
  "cfg_value index t =
     (let hits = sorted_list_of_set (tree_at index t)
      in if hits \<noteq> [] then Inr (iv_data (hd hits)) else Inl KeyError)"

fun values_at :: "int list \<Rightarrow> ('a::linorder) tree \<Rightarrow> error + 'a list" where
  "values_at [] t = Inr []"
| "values_at (i # is) t =
     (case cfg_value i t of
        Inl err \<Rightarrow> Inl err
      | Inr v \<Rightarrow> (case values_at is t of Inl err \<Rightarrow> Inl err | Inr vs \<Rightarrow> Inr (v # vs)))"

definition overlap :: "int \<Rightarrow> int \<Rightarrow> ('a::linorder) tree \<Rightarrow> 'a interval list" where
  "overlap b e t =
     map (\<lambda>iv. (max (iv_begin iv) b, min (iv_end iv) e, iv_data iv))
         (sorted_list_of_set (tree_overlap b e t))"

definition overlap_content :: "int \<Rightarrow> int \<Rightarrow> ('a::linorder) tree \<Rightarrow> 'a result" where
  "overlap_content b e t =
     (let hits = sorted_list_of_set (tree_overlap b e t)
      in if length hits = 1 then Data (iv_data (hd hits)) else DataList (map iv_data hits))"

definition cfg_start :: "'a tree \<Rightarrow> int" where
  "cfg_start t = tree_begin t"

definition cfg_end :: "'a tree \<Rightarrow> int" where
  "cfg_end t = tree_end t"

text \<open>
  \<open>key.start or self.start\<close>: a missing bound, and also the bound 0, is replaced by the
  bound of the index.
\<close>

definition or_default :: "int option \<Rightarrow> int \<Rightarrow> int" where
  "or_default x d = (case x of None \<Rightarrow> d | Some i \<Rightarrow> if i = 0 then d else i)"

definition map_result :: "('b \<Rightarrow> 'c) \<Rightarrow> error + 'b \<Rightarrow> error + 'c" where
  "map_result f r = (case r of Inl err \<Rightarrow> Inl err | Inr x \<Rightarrow> Inr (f x))"

fun lookup_key :: "key \<Rightarrow> ('a::linorder) tree \<Rightarrow> error + 'a result" where
  "lookup_key (KInt i) t = map_result Data (cfg_value i t)"
| "lookup_key (KTuple ks) t =
     (if length ks = 2 then Inr (overlap_content (ks ! 0) (ks ! 1) t)
      else map_result DataList (values_at ks t))"
| "lookup_key (KList ks) t = map_result DataList (values_at ks t)"
| "lookup_key (KStr s) t = Inl TypeError"
| "lookup_key (KSlice a b c) t =
     (let start = or_default a (cfg_start t); stop = or_default b (cfg_end t)
      in case c of
           None \<Rightarrow> Inr (Clipped (overlap start stop t))
         | Some step \<Rightarrow>
             (case py_range start stop step of
                Inl err \<Rightarrow> Inl err
              | Inr is \<Rightarrow> map_result DataList (values_at is t)))"

text \<open>
  A string key is first decoded as a label and the decoded tuple is then dispatched, so the
  dispatch itself never meets a string.
\<close>

definition lookup :: "key \<Rightarrow> ('a::linorder) tree \<Rightarrow> error + 'a result" where
  "lookup k t =
     (case k of
        KStr s \<Rightarrow> (case label_to_key s of Inl err \<Rightarrow> Inl err | Inr ks \<Rightarrow> lookup_key (KTuple ks) t)
      | _ \<Rightarrow> lookup_key k t)"

definition set_interval :: "int \<Rightarrow> int \<Rightarrow> 'a \<Rightarrow> 'a tree \<Rightarrow> error option \<times> 'a tree" where
  "set_interval b e v t = tree_addi b e v (tree_chop b e t)"

text \<open>The loop of the stepped assignment: it stops at the first error.\<close>

fun paint_each :: "(int \<times> int \<times> 'a) list \<Rightarrow> 'a tree \<Rightarrow> error option \<times> 'a tree" where
  "paint_each [] t = (None, t)"
| "paint_each ((b, e, v) # rest) t =
     (case set_interval b e v t of
        (None, t') \<Rightarrow> paint_each rest t'
      | (Some err, t') \<Rightarrow> (Some err, t'))"

text \<open>
  The second half of \<open>configure\<close>, once start, stop and step are known. The stepped branch
  iterates over the assigned value; \<open>iterate\<close> is Python's iteration of a value (None when
  the value is not iterable), a parameter because the values are opaque.
\<close>

definition paint :: "('a \<Rightarrow> 'a list option) \<Rightarrow> int option \<Rightarrow> int option \<Rightarrow> int option \<Rightarrow> 'a
    \<Rightarrow> 'a tree \<Rightarrow> error option \<times> 'a tree" where
  "paint iterate a b c v t =
     (let start = (case a of None \<Rightarrow> cfg_start t | Some i \<Rightarrow> i);
          stop = (case b of None \<Rightarrow> cfg_end t | Some i \<Rightarrow> i)
      in case c of
           None \<Rightarrow> set_interval start stop v t
         | Some step \<Rightarrow>
             (case py_range start stop step of
                Inl err \<Rightarrow> (Some err, t)
              | Inr indices \<Rightarrow>
                  (case iterate v of
                     None \<Rightarrow> (Some TypeError, t)
                   | Some vs \<Rightarrow> paint_each (zip (butlast indices) (zip (tl indices) vs)) t)))"

fun configure_key :: "('a \<Rightarrow> 'a list option) \<Rightarrow> key \<Rightarrow> 'a \<Rightarrow> 'a tree \<Rightarrow> error option \<times> 'a tree" where
  "configure_key iterate (KSlice a b c) v t = paint iterate a b c v t"
| "configure_key iterate (KTuple ks) v t =
     (if length ks = 2 then paint iterate (Some (ks ! 0)) (Some (ks ! 1)) None v t
      else if length ks = 3 then paint iterate (Some (ks ! 0)) (Some (ks ! 1)) (Some (ks ! 2)) v t
      else (Some ValueError, t))"
| "configure_key iterate k v t = (Some TypeError, t)"

definition configure :: "('a \<Rightarrow> 'a list option) \<Rightarrow> key \<Rightarrow> 'a \<Rightarrow> 'a tree \<Rightarrow> error option \<times> 'a tree" where
  "configure iterate k v t =
     (case k of
        KStr s \<Rightarrow>
          (case label_to_key s of
             Inl err \<Rightarrow> (Some err, t)
           | Inr ks \<Rightarrow> configure_key iterate (KTuple ks) v t)
      | _ \<Rightarrow> configure_key iterate k v t)"

text \<open>
  \<open>delete\<close>: the string branch only decodes the label; a slice has no attribute \<open>end\<close>, so
  that branch raises before the index is touched.
\<close>

definition delete :: "key \<Rightarrow> 'a tree \<Rightarrow> error option \<times> 'a tree" where
  "delete k t =
     (case k of
        KStr s \<Rightarrow> (case label_to_key s of Inl err \<Rightarrow> (Some err, t) | Inr ks \<Rightarrow> (None, t))
      | KTuple ks \<Rightarrow>
          (if length ks = 2 then (None, tree_chop (ks ! 0) (ks ! 1) t) else (Some TypeError, t))
      | KSlice a b c \<Rightarrow> (Some AttributeError, t)
      | _ \<Rightarrow> (Some TypeError, t))"

text \<open>
  \<open>__getitem__\<close> of the base class treats a tuple as a composite key: its first part is
  looked up and the rest indexes the result. \<open>subscript\<close> is Python's indexing of a looked-up
  result, a parameter because the values are opaque.
\<close>

definition getitem :: "('a result \<Rightarrow> key \<Rightarrow> error + 'a result) \<Rightarrow> key \<Rightarrow> ('a::linorder) tree
    \<Rightarrow> error + 'a result" where
  "getitem subscript k t =
     (case k of
        KTuple ks \<Rightarrow>
          (if length ks = 1 then lookup (KInt (ks ! 0)) t
           else if length ks = 2 then
             (case lookup (KInt (ks ! 0)) t of
                Inl err \<Rightarrow> Inl err
              | Inr r \<Rightarrow> subscript r (KInt (ks ! 1)))
           else if ks = [] then Inl IndexError
           else
             (case lookup (KInt (ks ! 0)) t of
                Inl err \<Rightarrow> Inl err
              | Inr r \<Rightarrow> subscript r (KTuple (tl ks))))
      | _ \<Rightarrow> lookup k t)"

text \<open>
  \<open>bool\<close> of a looked-up result: a list is true when it is not empty, a stored value
  according to \<open>truthy\<close>, Python's truth value of a stored value.
\<close>

definition py_bool :: "('a \<Rightarrow> bool) \<Rightarrow> 'a result \<Rightarrow> bool" where
  "py_bool truthy r =
     (case r of Data v \<Rightarrow> truthy v | DataList vs \<Rightarrow> vs \<noteq> [] | Clipped ivs \<Rightarrow> ivs \<noteq> [])"

definition contains :: "('a \<Rightarrow> bool) \<Rightarrow> ('a result \<Rightarrow> key \<Rightarrow> error + 'a result) \<Rightarrow> key
    \<Rightarrow> ('a::linorder) tree \<Rightarrow> error + bool" where
  "contains truthy subscript k t = map_result (py_bool truthy) (getitem subscript k t)"

definition getstate :: "('a::linorder) tree \<Rightarrow> 'a interval list" where
  "getstate t = sorted_list_of_set t"

definition setstate :: "'a interval list \<Rightarrow> error + 'a tree" where
  "setstate d = tree_of d"

section \<open>Notions used to state the properties\<close>

text \<open>An interval covers the points from its begin up to, but not including, its end.\<close>

definition covers :: "'a interval \<Rightarrow> int \<Rightarrow> bool" where
  "covers iv p = (iv_begin iv \<le> p \<and> p < iv_end iv)"

text \<open>Two intervals overlap when some point is covered by both.\<close>

definition overlapping :: "'a interval \<Rightarrow> 'a interval \<Rightarrow> bool" where
  "overlapping x y = (max (iv_begin x) (iv_begin y) < min (iv_end x) (iv_end y))"

definition non_overlapping :: "'a tree \<Rightarrow> bool" where
  "non_overlapping t = (\<forall>x\<in>t. \<forall>y\<in>t. x \<noteq> y \<longrightarrow> \<not> overlapping x y)"

text \<open>An interval overlaps the window [b, e) when it covers a point of the window.\<close>

definition overlaps_window :: "'a interval \<Rightarrow> int \<Rightarrow> int \<Rightarrow> bool" where
  "overlaps_window iv b e = (max (iv_begin iv) b < min (iv_end iv) e)"

text \<open>The index never holds a null interval: every way of adding one refuses it.\<close>

definition no_null :: "'a tree \<Rightarrow> bool" where
  "no_null t = (\<forall>iv\<in>t. \<not> is_null iv)"

text \<open>Iterating a Python string yields its one-character substrings.\<close>

definition str_iterate :: "string \<Rightarrow> string list option" where
  "str_iterate s = Some (map (\<lambda>c. [c]) s)"

text \<open>A well-formed index is a finite set of intervals, none of them null.\<close>

definition well_formed :: "'a tree \<Rightarrow> bool" where
  "well_formed t = (finite t \<and> no_null t)"

text \<open>
  A sequence of calls \<open>configure(key, value)\<close>, each applied to the index the previous one
  left, whether or not it raised.
\<close>

fun run_configure :: "('a \<Rightarrow> 'a list option) \<Rightarrow> (key \<times> 'a) list \<Rightarrow> 'a tree \<Rightarrow> 'a tree" where
  "run_configure iterate [] t = t"
| "run_configure iterate ((k, v) # ops) t = run_configure iterate ops (snd (configure iterate k v t))"

text \<open>
  Every stored interval covering the point p carries the value v, and there is one.
\<close>

definition only_value :: "'a tree \<Rightarrow> int \<Rightarrow> 'a \<Rightarrow> bool" where
  "only_value t p v = (finite t \<and> (\<exists>x\<in>t. covers x p) \<and> (\<forall>y\<in>t. covers y p \<longrightarrow> iv_data y = v))"

text \<open>A Python string is true when it is not empty.\<close>

definition str_truthy :: "string \<Rightarrow> bool" where
  "str_truthy s = (s \<noteq> [])"



section \<open>Labels\<close>

lemma of_char_digit_char: "d < 10 \<Longrightarrow> (of_char (digit_char d) :: nat) = 48 + d"
  by (simp add: digit_char_def)

lemma is_digit_digit_char: "d < 10 \<Longrightarrow> is_digit (digit_char d)"
  by (simp add: is_digit_def of_char_digit_char)

lemma digits_nonempty: "digits n \<noteq> []"
  by (subst digits.simps) simp

lemma is_digit_not_sep:
  "is_digit c \<Longrightarrow> c \<noteq> CHR ''-'' \<and> c \<noteq> CHR ''+'' \<and> c \<noteq> CHR ''_'' \<and> \<not> is_space c"
  by (auto simp add: is_digit_def is_space_def)

lemma split_on_absent: "c \<notin> set s \<Longrightarrow> split_on c s = [s]"
  by (induction s) auto

lemma split_on_append: "c \<notin> set s \<Longrightarrow> split_on c (s @ c # r) = s # split_on c r"
  by (induction s) auto

lemma digits_all_digit: "list_all is_digit (digits n)"
proof (induction n rule: digits.induct)
  case (1 n)
  show ?case
  proof (cases "n < 10")
    case True
    then show ?thesis by (subst digits.simps) (simp add: is_digit_digit_char)
  next
    case False
    with 1 show ?thesis by (subst digits.simps) (simp add: is_digit_digit_char)
  qed
qed

lemma length_digits: "\<not> n < 10 \<Longrightarrow> length (digits n) = Suc (length (digits (n div 10)))"
  by (subst digits.simps) simp

lemma foldl_digits_value:
  "foldl (\<lambda>acc c. 10 * acc + ((of_char c :: nat) - 48)) a (digits n)
     = a * 10 ^ length (digits n) + n"
proof (induction n arbitrary: a rule: digits.induct)
  case (1 n)
  show ?case
  proof (cases "n < 10")
    case True
    then have "digits n = [digit_char n]" by (subst digits.simps) simp
    with True show ?thesis by (simp add: of_char_digit_char)
  next
    case False
    then have d: "digits n = digits (n div 10) @ [digit_char (n mod 10)]"
      by (subst digits.simps) simp
    have "foldl (\<lambda>acc c. 10 * acc + ((of_char c :: nat) - 48)) a (digits n)
        = 10 * (a * 10 ^ length (digits (n div 10)) + n div 10) + n mod 10"
      unfolding d using 1 [OF False, of a] by (simp add: of_char_digit_char)
    also have "\<dots> = a * 10 ^ length (digits n) + n"
      by (simp add: length_digits [OF False] algebra_simps)
    finally show ?thesis .
  qed
qed

lemma filter_digits: "list_all is_digit s \<Longrightarrow> filter (\<lambda>c. c \<noteq> CHR ''_'') s = s"
  by (induction s) (auto dest: is_digit_not_sep)

lemma digits_value_digits: "digits_value (digits n) = n"
  by (simp add: digits_value_def filter_digits [OF digits_all_digit] foldl_digits_value)

lemma digits_no_char: "\<not> is_digit c \<Longrightarrow> c \<notin> set (digits n)"
  using digits_all_digit [of n] by (auto simp add: list_all_iff)

lemma dropWhile_id: "s \<noteq> [] \<Longrightarrow> \<not> P (hd s) \<Longrightarrow> dropWhile P s = s"
  by (cases s) auto

lemma strip_no_space:
  assumes "s \<noteq> []" "\<not> is_space (hd s)" "\<not> is_space (last s)"
  shows "strip s = s"
proof -
  have "dropWhile is_space s = s" using assms by (simp add: dropWhile_id)
  moreover have "dropWhile is_space (rev s) = rev s"
    using assms by (simp add: dropWhile_id hd_rev)
  ultimately show ?thesis by (simp add: strip_def)
qed

lemma strip_digits: "strip (digits n) = digits n"
proof -
  have ne: "digits n \<noteq> []" by (rule digits_nonempty)
  have "is_digit (hd (digits n))" "is_digit (last (digits n))"
    using digits_all_digit [of n] ne by (auto simp add: list_all_iff)
  then show ?thesis using ne by (auto intro!: strip_no_space dest: is_digit_not_sep)
qed

lemma py_int_digits: "py_int (digits n) = Inr (int n)"
proof -
  have ne: "digits n \<noteq> []" by (rule digits_nonempty)
  have hd: "is_digit (hd (digits n))"
    using digits_all_digit [of n] ne by (auto simp add: list_all_iff)
  have us: "CHR ''_'' \<notin> set (digits n)"
    by (rule digits_no_char) (auto dest: is_digit_not_sep)
  show ?thesis
    using ne is_digit_not_sep [OF hd] digits_all_digit [of n]
    by (simp add: py_int_def strip_digits split_on_absent [OF us] digits_value_digits)
qed

lemma py_int_py_str_nonneg: "0 \<le> i \<Longrightarrow> py_int (py_str i) = Inr i"
  by (simp add: py_str_def py_int_digits)

lemma minus_not_in_digits: "CHR ''-'' \<notin> set (digits n)"
  by (rule digits_no_char) (auto dest: is_digit_not_sep)

text \<open>
  C4 (as the specification states it). The label round-trip is claimed for all pairs
  (begin, end) of integers with begin < end. It fails for a negative bound: the label of
  (-3, 5) is "-3-5", which splits at every minus sign into "", "3" and "5", and decoding the
  empty piece raises ValueError.
\<close>

theorem label_round_trip_negative_counterexample:
  "(-3::int) < 5 \<and> key_to_label [-3, 5] = Inr ''-3-5'' \<and> label_to_key ''-3-5'' = Inl ValueError"
  by code_simp

text \<open>
  C4 (amended). For all pairs (begin, end) of integers with 0 \<le> begin < end, the label is
  the decimal begin, a minus sign and the decimal end, and decoding that label returns the
  pair: label_to_key(key_to_label((begin, end))) == (begin, end).
\<close>

theorem label_round_trip:
  assumes "0 \<le> b" and "b < e"
  shows "key_to_label [b, e] = Inr (py_str b @ ''-'' @ py_str e)
       \<and> label_to_key (py_str b @ ''-'' @ py_str e) = Inr [b, e]"
proof -
  have "split_on (CHR ''-'') (py_str b @ ''-'' @ py_str e) = [py_str b, py_str e]"
    using assms
    by (simp add: py_str_def split_on_append [OF minus_not_in_digits]
        split_on_absent [OF minus_not_in_digits])
  then show ?thesis
    using assms by (simp add: key_to_label_def label_to_key_def py_int_py_str_nonneg)
qed

theorem label_round_trip_witness:
  "(0::int) \<le> 12 \<and> (12::int) < 305 \<and> key_to_label [12, 305] = Inr ''12-305''
   \<and> label_to_key ''12-305'' = Inr [12, 305]"
proof -
  have s: "py_str 12 @ ''-'' @ py_str 305 = ''12-305''" by code_simp
  show ?thesis using label_round_trip [of 12 305] unfolding s by simp
qed

section \<open>The interval index: chop and point queries\<close>

lemma iv_simps [simp]:
  "iv_begin (b, e, v) = b" "iv_end (b, e, v) = e" "iv_data (b, e, v) = v"
  by (simp_all add: iv_begin_def iv_end_def iv_data_def)

lemma iv_collapse: "(iv_begin x, iv_end x, iv_data x) = x"
  by (cases x) simp

lemma tree_at_iff: "x \<in> tree_at p t \<longleftrightarrow> x \<in> t \<and> covers x p"
  by (auto simp add: tree_at_def covers_def)

lemma tree_chop_iff:
  "x \<in> tree_chop b e t \<longleftrightarrow>
     (x \<in> t \<and> x \<notin> tree_envelop b e t
        \<and> \<not> (iv_begin x < b \<and> b < iv_end x) \<and> \<not> (iv_begin x \<le> e \<and> e < iv_end x))
   \<or> (\<exists>y\<in>t. iv_begin y < b \<and> b < iv_end y \<and> x = (iv_begin y, b, iv_data y))
   \<or> (\<exists>y\<in>t. iv_begin y \<le> e \<and> e < iv_end y \<and> x = (e, iv_end y, iv_data y))"
  unfolding tree_chop_def Let_def tree_at_def by auto

lemma tree_envelop_iff:
  "x \<in> tree_envelop b e t \<longleftrightarrow> b < e \<and> x \<in> t \<and> b \<le> iv_begin x \<and> iv_end x \<le> e"
  by (auto simp add: tree_envelop_def)

lemma chop_uncovered:
  assumes "b < e" "b \<le> p" "p < e" "x \<in> tree_chop b e t"
  shows "\<not> covers x p"
  using assms unfolding tree_chop_iff tree_envelop_iff covers_def by auto

lemma chop_outside:
  assumes "b \<le> e" "\<not> (b \<le> p \<and> p < e)"
  shows "(\<exists>x\<in>tree_chop b e t. covers x p \<and> iv_data x = d)
       \<longleftrightarrow> (\<exists>x\<in>t. covers x p \<and> iv_data x = d)"
proof
  assume "\<exists>x\<in>tree_chop b e t. covers x p \<and> iv_data x = d"
  then obtain x where x: "x \<in> tree_chop b e t" "covers x p" "iv_data x = d" by blast
  from x(1) consider "x \<in> t"
    | y where "y \<in> t" "iv_begin y < b" "b < iv_end y" "x = (iv_begin y, b, iv_data y)"
    | y where "y \<in> t" "iv_begin y \<le> e" "e < iv_end y" "x = (e, iv_end y, iv_data y)"
    unfolding tree_chop_iff by blast
  then show "\<exists>x\<in>t. covers x p \<and> iv_data x = d"
  proof cases
    case 1 with x show ?thesis by blast
  next
    case 2 with x show ?thesis by (auto simp add: covers_def intro!: bexI [of _ y])
  next
    case 3 with x show ?thesis by (auto simp add: covers_def intro!: bexI [of _ y])
  qed
next
  assume "\<exists>x\<in>t. covers x p \<and> iv_data x = d"
  then obtain y where y: "y \<in> t" "covers y p" "iv_data y = d" by blast
  show "\<exists>x\<in>tree_chop b e t. covers x p \<and> iv_data x = d"
  proof (cases "p < b")
    case True
    show ?thesis
    proof (cases "b < iv_end y")
      case True
      with \<open>p < b\<close> y have "(iv_begin y, b, iv_data y) \<in> tree_chop b e t"
        unfolding tree_chop_iff covers_def by auto
      with \<open>p < b\<close> y show ?thesis by (auto simp add: covers_def intro!: bexI [of _ "(iv_begin y, b, iv_data y)"])
    next
      case False
      with \<open>p < b\<close> y assms have "y \<in> tree_chop b e t"
        unfolding tree_chop_iff tree_envelop_iff covers_def by auto
      with y show ?thesis by blast
    qed
  next
    case False
    with assms have pe: "e \<le> p" by simp
    show ?thesis
    proof (cases "iv_begin y \<le> e")
      case True
      with pe y have "(e, iv_end y, iv_data y) \<in> tree_chop b e t"
        unfolding tree_chop_iff covers_def by auto
      with pe y show ?thesis by (auto simp add: covers_def intro!: bexI [of _ "(e, iv_end y, iv_data y)"])
    next
      case False
      with pe y assms have "y \<in> tree_chop b e t"
        unfolding tree_chop_iff tree_envelop_iff covers_def by auto
      with y show ?thesis by blast
    qed
  qed
qed

lemma chop_origin:
  assumes "x \<in> tree_chop b e t"
  obtains y where "y \<in> t"
    "(x = y \<and> \<not> (iv_begin y < b \<and> b < iv_end y) \<and> \<not> (iv_begin y \<le> e \<and> e < iv_end y))
     \<or> (iv_begin y < b \<and> b < iv_end y \<and> x = (iv_begin y, b, iv_data y))
     \<or> (iv_begin y \<le> e \<and> e < iv_end y \<and> x = (e, iv_end y, iv_data y))"
  using assms unfolding tree_chop_iff by blast

lemma chop_non_overlapping:
  assumes "b \<le> e" "non_overlapping t"
  shows "non_overlapping (tree_chop b e t)"
  unfolding non_overlapping_def
proof (intro ballI impI notI)
  fix x1 x2
  assume x1: "x1 \<in> tree_chop b e t" and x2: "x2 \<in> tree_chop b e t"
    and ne: "x1 \<noteq> x2" and ov: "overlapping x1 x2"
  from x1 obtain y1 where y1: "y1 \<in> t"
    "(x1 = y1 \<and> \<not> (iv_begin y1 < b \<and> b < iv_end y1) \<and> \<not> (iv_begin y1 \<le> e \<and> e < iv_end y1))
     \<or> (iv_begin y1 < b \<and> b < iv_end y1 \<and> x1 = (iv_begin y1, b, iv_data y1))
     \<or> (iv_begin y1 \<le> e \<and> e < iv_end y1 \<and> x1 = (e, iv_end y1, iv_data y1))"
    by (rule chop_origin)
  from x2 obtain y2 where y2: "y2 \<in> t"
    "(x2 = y2 \<and> \<not> (iv_begin y2 < b \<and> b < iv_end y2) \<and> \<not> (iv_begin y2 \<le> e \<and> e < iv_end y2))
     \<or> (iv_begin y2 < b \<and> b < iv_end y2 \<and> x2 = (iv_begin y2, b, iv_data y2))
     \<or> (iv_begin y2 \<le> e \<and> e < iv_end y2 \<and> x2 = (e, iv_end y2, iv_data y2))"
    by (rule chop_origin)
  have "overlapping y1 y2"
    using ov y1(2) y2(2) unfolding overlapping_def by auto
  with assms(2) y1(1) y2(1) have "y1 = y2" unfolding non_overlapping_def by blast
  with y1(2) y2(2) ne ov assms(1) show False unfolding overlapping_def by auto
qed

lemma paint_non_overlapping:
  assumes "b < e" "non_overlapping t"
  shows "non_overlapping (insert (b, e, v) (tree_chop b e t))"
proof -
  have c: "non_overlapping (tree_chop b e t)"
    using assms by (simp add: chop_non_overlapping)
  have n: "\<not> overlapping x (b, e, v)" if "x \<in> tree_chop b e t" for x
  proof
    assume "overlapping x (b, e, v)"
    then have "b \<le> max (iv_begin x) b" "max (iv_begin x) b < e" "covers x (max (iv_begin x) b)"
      by (auto simp add: overlapping_def covers_def)
    with chop_uncovered [OF assms(1) _ _ that] show False by blast
  qed
  have s: "overlapping x y \<longleftrightarrow> overlapping y x" for x y :: "'a interval"
    by (auto simp add: overlapping_def)
  show ?thesis
    using c n unfolding non_overlapping_def by (auto simp add: s)
qed

lemma new_interval_alone:
  assumes "b < e" "x \<in> tree_chop b e t"
  shows "\<not> overlapping x (b, e, v)"
proof
  assume "overlapping x (b, e, v)"
  then have "b \<le> max (iv_begin x) b" "max (iv_begin x) b < e" "covers x (max (iv_begin x) b)"
    by (auto simp add: overlapping_def covers_def)
  with chop_uncovered [OF assms(1) _ _ assms(2)] show False by blast
qed

lemma value_unique:
  fixes t :: "('a::linorder) tree"
  assumes "non_overlapping t" "x \<in> t" "covers x p"
  shows "cfg_value p t = Inr (iv_data x)"
proof -
  have "tree_at p t = {x}"
  proof (rule set_eqI)
    fix y
    have "y = x" if "y \<in> t" "covers y p"
    proof (rule ccontr)
      assume "y \<noteq> x"
      moreover have "overlapping y x" using that(2) assms(3) by (auto simp add: overlapping_def covers_def)
      ultimately show False using assms(1,2) that(1) unfolding non_overlapping_def by blast
    qed
    with assms show "y \<in> tree_at p t \<longleftrightarrow> y \<in> {x}" by (auto simp add: tree_at_iff)
  qed
  then show ?thesis by (simp add: cfg_value_def)
qed

lemma value_none:
  fixes t :: "('a::linorder) tree"
  assumes "\<forall>x\<in>t. \<not> covers x p"
  shows "cfg_value p t = Inl KeyError"
proof -
  have "tree_at p t = {}" using assms by (auto simp add: tree_at_iff)
  then show ?thesis by (simp add: cfg_value_def)
qed

lemma value_all_same:
  fixes t :: "('a::linorder) tree"
  assumes "finite t" "x \<in> t" "covers x p" "\<forall>y\<in>t. covers y p \<longrightarrow> iv_data y = v"
  shows "cfg_value p t = Inr v"
proof -
  let ?hits = "sorted_list_of_set (tree_at p t)"
  have f: "finite (tree_at p t)" using assms(1) by (simp add: tree_at_def)
  have "x \<in> tree_at p t" using assms by (simp add: tree_at_iff)
  with f have ne: "?hits \<noteq> []" by auto
  then have "hd ?hits \<in> set ?hits" by simp
  with f have "hd ?hits \<in> tree_at p t" by simp
  with assms(4) have "iv_data (hd ?hits) = v" by (simp add: tree_at_iff)
  with ne show ?thesis by (simp add: cfg_value_def)
qed

lemma set_interval_ok:
  "b < e \<Longrightarrow> set_interval b e v t = (None, insert (b, e, v) (tree_chop b e t))"
  by (auto simp add: set_interval_def tree_addi_def is_null_def insert_absorb)

lemma configure_pair:
  "configure iterate (KTuple [b, e]) v t = set_interval b e v t"
  by (simp add: configure_def paint_def)

lemma lookup_point: "lookup (KInt p) t = map_result Data (cfg_value p t)"
  by (simp add: lookup_def)

lemma painted_value:
  fixes t :: "('a::linorder) tree"
  assumes "b < e" "b \<le> p" "p < e"
  shows "cfg_value p (insert (b, e, v) (tree_chop b e t)) = Inr v"
proof -
  have "\<not> covers x p" if "x \<in> tree_chop b e t" for x
    using chop_uncovered [OF assms that] .
  then have "tree_at p (insert (b, e, v) (tree_chop b e t)) = {(b, e, v)}"
    using assms by (auto simp add: tree_at_iff) (simp add: covers_def)
  then show ?thesis by (simp add: cfg_value_def)
qed

lemma chop_value_outside:
  fixes t :: "('a::linorder) tree"
  assumes "non_overlapping t" "b \<le> e" "\<not> (b \<le> p \<and> p < e)"
  shows "cfg_value p (tree_chop b e t) = cfg_value p t"
proof (cases "\<exists>x\<in>t. covers x p")
  case True
  then obtain x where x: "x \<in> t" "covers x p" by blast
  with chop_outside [OF assms(2,3), of t "iv_data x"]
  obtain x' where x': "x' \<in> tree_chop b e t" "covers x' p" "iv_data x' = iv_data x" by blast
  have "cfg_value p (tree_chop b e t) = Inr (iv_data x')"
    using chop_non_overlapping [OF assms(2,1)] x' by (intro value_unique)
  moreover have "cfg_value p t = Inr (iv_data x)"
    using assms(1) x by (intro value_unique)
  ultimately show ?thesis using x' by simp
next
  case False
  then have "\<forall>x\<in>tree_chop b e t. \<not> covers x p"
    using chop_outside [OF assms(2,3), of t] by blast
  with False show ?thesis by (simp add: value_none)
qed

lemma paint_value_outside:
  fixes t :: "('a::linorder) tree"
  assumes "non_overlapping t" "b < e" "\<not> (b \<le> p \<and> p < e)"
  shows "cfg_value p (insert (b, e, v) (tree_chop b e t)) = cfg_value p t"
proof -
  have "tree_at p (insert (b, e, v) (tree_chop b e t)) = tree_at p (tree_chop b e t)"
    using assms by (auto simp add: tree_at_iff covers_def)
  then have "cfg_value p (insert (b, e, v) (tree_chop b e t)) = cfg_value p (tree_chop b e t)"
    by (simp add: cfg_value_def)
  with chop_value_outside [of t b e p] assms show ?thesis by simp
qed

lemma chop_empty: "tree_chop b e {} = {}"
  by (simp add: tree_chop_def tree_at_def tree_envelop_def)

lemma non_overlapping_empty: "non_overlapping {}"
  by (simp add: non_overlapping_def)

lemma overwrite_example:
  fixes x y :: "'a::linorder"
  assumes "t2 = snd (configure iterate (KTuple [3, 7]) y (snd (configure iterate (KTuple [0, 10]) x {})))"
  shows "(0 \<le> p \<and> p < 3 \<or> 7 \<le> p \<and> p < 10 \<longrightarrow> lookup (KInt p) t2 = Inr (Data x))
       \<and> (3 \<le> p \<and> p < 7 \<longrightarrow> lookup (KInt p) t2 = Inr (Data y))"
proof -
  let ?t1 = "insert (0, 10, x) (tree_chop 0 10 {})"
  have t1: "snd (configure iterate (KTuple [0, 10]) x {}) = ?t1"
    by (simp add: configure_pair set_interval_ok)
  have n1: "non_overlapping ?t1"
    by (rule paint_non_overlapping) (simp_all add: non_overlapping_empty)
  have v1: "cfg_value p ?t1 = Inr x" if "0 \<le> p" "p < 10" for p
    using that by (intro painted_value) simp_all
  have t2: "t2 = insert (3, 7, y) (tree_chop 3 7 ?t1)"
    unfolding assms t1 by (simp add: configure_pair set_interval_ok)
  have "cfg_value p t2 = Inr y" if "3 \<le> p" "p < 7"
    unfolding t2 using that by (intro painted_value) simp_all
  moreover have "cfg_value p t2 = Inr x" if "0 \<le> p \<and> p < 3 \<or> 7 \<le> p \<and> p < 10"
  proof -
    have "cfg_value p t2 = cfg_value p ?t1"
      unfolding t2 using that n1 by (intro paint_value_outside) auto
    with v1 [of p] that show ?thesis by auto
  qed
  ultimately show ?thesis by (simp add: lookup_point map_result_def)
qed

lemma delete_pair: "delete (KTuple [b, e]) t = (None, tree_chop b e t)"
  by (simp add: delete_def)

lemma gap_example:
  fixes x :: "'a::linorder"
  assumes "t2 = snd (delete (KTuple [3, 7]) (snd (configure iterate (KTuple [0, 10]) x {})))"
  shows "lookup (KInt 5) t2 = Inl KeyError \<and> lookup (KInt 0) t2 = Inr (Data x)
       \<and> lookup (KInt 9) t2 = Inr (Data x)"
proof -
  let ?t1 = "insert (0, 10, x) (tree_chop 0 10 {})"
  have t1: "snd (configure iterate (KTuple [0, 10]) x {}) = ?t1"
    by (simp add: configure_pair set_interval_ok)
  have t2: "t2 = tree_chop 3 7 ?t1"
    unfolding assms t1 by (simp add: delete_pair)
  have n1: "non_overlapping ?t1"
    by (rule paint_non_overlapping) (simp_all add: non_overlapping_empty)
  have v1: "cfg_value p ?t1 = Inr x" if "0 \<le> p" "p < 10" for p
    using that by (intro painted_value) simp_all
  have "\<forall>y\<in>tree_chop 3 7 ?t1. \<not> covers y 5"
    using chop_uncovered [of 3 7 5 _ ?t1] by simp
  then have "cfg_value 5 t2 = Inl KeyError"
    unfolding t2 by (rule value_none)
  moreover have "cfg_value 0 t2 = Inr x"
    unfolding t2 using chop_value_outside [OF n1, of 3 7 0] v1 [of 0] by simp
  moreover have "cfg_value 9 t2 = Inr x"
    unfolding t2 using chop_value_outside [OF n1, of 3 7 9] v1 [of 9] by simp
  ultimately show ?thesis by (simp add: lookup_point map_result_def)
qed

section \<open>Painting\<close>

text \<open>
  C1 (as the specification states it). Painting a window is claimed to leave every point
  query outside the window as it was, on any IntervalConfig. That fails when stored
  intervals overlap: with [0, 30) \<rightarrow> "a" and [5, 20) \<rightarrow> "b" stored, the point 15 reads "a",
  the lowest-sorted interval covering it. Painting [0, 10) trims both intervals to begin
  at 10, so that [10, 20) \<rightarrow> "b" now sorts first, and the point 15, outside the painted
  window, reads "b".
\<close>

theorem paint_overwrite_overlapping_counterexample:
  "lookup (KInt 15) {(0, 30, ''a''), (5, 20, ''b'')} = Inr (Data ''a'')
   \<and> configure str_iterate (KTuple [0, 10]) ''z'' {(0, 30, ''a''), (5, 20, ''b'')}
       = (None, {(0, 10, ''z''), (10, 20, ''b''), (10, 30, ''a'')})
   \<and> lookup (KInt 15)
        (snd (configure str_iterate (KTuple [0, 10]) ''z'' {(0, 30, ''a''), (5, 20, ''b'')}))
       = Inr (Data ''b'')
   \<and> \<not> (0 \<le> (15::int) \<and> (15::int) < 10)"
  by code_simp

text \<open>
  C1 (amended). On an IntervalConfig whose stored intervals are pairwise non-overlapping,
  \<open>configure\<close> with a (start, stop) key, start < stop, and no step raises nothing, chops the
  window out of the stored intervals (splitting at the boundaries) and inserts the single
  interval [start, stop) \<rightarrow> value; afterwards every point query inside [start, stop) returns
  the new value and every point query outside returns what it returned before. In
  particular, for all values x and y, starting from an empty config, configure((0,10), x)
  then configure((3,7), y) yields x at every integer point of 0..2 and 7..9, and y at
  every integer point of 3..6.
\<close>

theorem paint_overwrite:
  fixes t :: "('a::linorder) tree"
  assumes "non_overlapping t" and "start < stop"
  shows "configure iterate (KTuple [start, stop]) v t
           = (None, insert (start, stop, v) (tree_chop start stop t))
       \<and> (\<forall>p. start \<le> p \<and> p < stop \<longrightarrow>
             lookup (KInt p) (snd (configure iterate (KTuple [start, stop]) v t)) = Inr (Data v))
       \<and> (\<forall>p. \<not> (start \<le> p \<and> p < stop) \<longrightarrow>
             lookup (KInt p) (snd (configure iterate (KTuple [start, stop]) v t))
               = lookup (KInt p) t)
       \<and> (\<forall>p. (0 \<le> p \<and> p < 3 \<or> 7 \<le> p \<and> p < 10 \<longrightarrow>
               lookup (KInt p) (snd (configure iterate (KTuple [3, 7]) y
                 (snd (configure iterate (KTuple [0, 10]) x {})))) = Inr (Data x))
            \<and> (3 \<le> p \<and> p < 7 \<longrightarrow>
               lookup (KInt p) (snd (configure iterate (KTuple [3, 7]) y
                 (snd (configure iterate (KTuple [0, 10]) x {})))) = Inr (Data y)))"
proof -
  have "configure iterate (KTuple [start, stop]) v t
           = (None, insert (start, stop, v) (tree_chop start stop t))"
    using assms by (simp add: configure_pair set_interval_ok)
  moreover have "\<forall>p. start \<le> p \<and> p < stop \<longrightarrow>
             lookup (KInt p) (snd (configure iterate (KTuple [start, stop]) v t)) = Inr (Data v)"
    using assms
    by (simp add: configure_pair set_interval_ok lookup_point painted_value map_result_def)
  moreover have "\<forall>p. \<not> (start \<le> p \<and> p < stop) \<longrightarrow>
             lookup (KInt p) (snd (configure iterate (KTuple [start, stop]) v t))
               = lookup (KInt p) t"
    using assms
    by (simp add: configure_pair set_interval_ok lookup_point paint_value_outside)
  moreover note overwrite_example [OF refl, of _ iterate y x]
  ultimately show ?thesis by blast
qed

theorem paint_overwrite_witness:
  "non_overlapping {(0, 10, ''x'')} \<and> (3::int) < 7
   \<and> configure str_iterate (KTuple [3, 7]) ''y'' {(0, 10, ''x'')}
       = (None, {(0, 3, ''x''), (3, 7, ''y''), (7, 10, ''x'')})
   \<and> lookup (KInt 5) {(0, 3, ''x''), (3, 7, ''y''), (7, 10, ''x'')} = Inr (Data ''y'')
   \<and> lookup (KInt 8) {(0, 3, ''x''), (3, 7, ''y''), (7, 10, ''x'')}
       = lookup (KInt 8) {(0, 10, ''x'')}"
proof -
  have n: "non_overlapping {(0, 10, ''x'')}" by code_simp
  have l: "(3::int) < 7" by simp
  have c: "insert (3, 7, ''y'') (tree_chop 3 7 {(0, 10, ''x'')})
      = {(0, 3, ''x''), (3, 7, ''y''), (7, 10, ''x'')}" by code_simp
  note T = paint_overwrite [OF n l, of str_iterate "''y''" "''y''" "''x''", unfolded c]
  have a: "configure str_iterate (KTuple [3, 7]) ''y'' {(0, 10, ''x'')}
       = (None, {(0, 3, ''x''), (3, 7, ''y''), (7, 10, ''x'')})"
    using T by (rule conjunct1)
  have "lookup (KInt 5) (snd (configure str_iterate (KTuple [3, 7]) ''y'' {(0, 10, ''x'')}))
      = Inr (Data ''y'')"
    using T [THEN conjunct2, THEN conjunct1, rule_format, of 5] by simp
  moreover have "lookup (KInt 8) (snd (configure str_iterate (KTuple [3, 7]) ''y'' {(0, 10, ''x'')}))
      = lookup (KInt 8) {(0, 10, ''x'')}"
    using T [THEN conjunct2, THEN conjunct2, THEN conjunct1, rule_format, of 8] by simp
  ultimately show ?thesis using n a by (simp only: snd_conv l simp_thms)
qed

text \<open>
  C7. For every state of the index and every paint of a window [start, stop) with
  start < stop: the paint raises nothing; afterwards the only stored interval that meets
  the painted range is the new one, which overlaps no other stored interval; and if the
  stored intervals were pairwise non-overlapping before the paint, they are pairwise
  non-overlapping after it.
\<close>

theorem paint_non_overlap:
  assumes "start < stop"
  shows "configure iterate (KTuple [start, stop]) v t = set_interval start stop v t
       \<and> set_interval start stop v t = (None, insert (start, stop, v) (tree_chop start stop t))
       \<and> (\<forall>x\<in>snd (set_interval start stop v t).
             overlaps_window x start stop \<longrightarrow> x = (start, stop, v))
       \<and> (\<forall>x\<in>snd (set_interval start stop v t).
             x \<noteq> (start, stop, v) \<longrightarrow> \<not> overlapping x (start, stop, v))
       \<and> (non_overlapping t \<longrightarrow> non_overlapping (snd (set_interval start stop v t)))"
proof -
  have w: "\<not> overlaps_window x start stop" if "x \<in> tree_chop start stop t" for x
    using new_interval_alone [OF assms that, of v]
    by (simp add: overlapping_def overlaps_window_def)
  have o: "\<not> overlapping x (start, stop, v)" if "x \<in> tree_chop start stop t" for x
    using new_interval_alone [OF assms that, of v] .
  have n: "non_overlapping t \<longrightarrow> non_overlapping (insert (start, stop, v) (tree_chop start stop t))"
    using paint_non_overlapping [OF assms, of t v] by blast
  show ?thesis
    unfolding configure_pair set_interval_ok [OF assms] snd_conv
    using w o n by blast
qed

theorem paint_non_overlap_witness:
  "(3::int) < 7 \<and> non_overlapping {(0, 10, ''x''), (20, 30, ''w'')}
   \<and> set_interval 3 7 ''y'' {(0, 10, ''x''), (20, 30, ''w'')}
       = (None, {(0, 3, ''x''), (3, 7, ''y''), (7, 10, ''x''), (20, 30, ''w'')})
   \<and> non_overlapping (snd (set_interval 3 7 ''y'' {(0, 10, ''x''), (20, 30, ''w'')}))"
proof -
  have l: "(3::int) < 7" by simp
  have n: "non_overlapping {(0, 10, ''x''), (20, 30, ''w'')}" by code_simp
  have c: "insert (3, 7, ''y'') (tree_chop 3 7 {(0, 10, ''x''), (20, 30, ''w'')})
      = {(0, 3, ''x''), (3, 7, ''y''), (7, 10, ''x''), (20, 30, ''w'')}" by code_simp
  note T = paint_non_overlap [OF l, of str_iterate "''y''" "{(0, 10, ''x''), (20, 30, ''w'')}",
      unfolded c]
  have a: "set_interval 3 7 ''y'' {(0, 10, ''x''), (20, 30, ''w'')}
       = (None, {(0, 3, ''x''), (3, 7, ''y''), (7, 10, ''x''), (20, 30, ''w'')})"
    using T by blast
  have "non_overlapping (snd (set_interval 3 7 ''y'' {(0, 10, ''x''), (20, 30, ''w'')}))"
    using T n by blast
  with a l n show ?thesis by (simp only: simp_thms)
qed

section \<open>Deleting a window\<close>

text \<open>
  C6 (as the specification states it). Deleting is claimed to preserve the coverage
  outside the window for every (begin, end) key. That fails for an inverted key: with
  [0, 5) \<rightarrow> "a" stored, delete((7, 3)) trims the interval, which covers the point 3, to
  [3, 5), so that the point 1, which lies outside the (empty) window, loses its coverage
  and its point query fails.
\<close>

theorem delete_inverted_window_counterexample:
  "delete (KTuple [7, 3]) {(0, 5, ''a'')} = (None, {(3, 5, ''a'')})
   \<and> lookup (KInt 1) {(0, 5, ''a'')} = Inr (Data ''a'')
   \<and> lookup (KInt 1) (snd (delete (KTuple [7, 3]) {(0, 5, ''a'')})) = Inl KeyError
   \<and> \<not> (7 \<le> (1::int) \<and> (1::int) < 3)"
  by code_simp

text \<open>
  C6 (amended). For every delete with a (begin, end) key with begin < end: nothing is
  raised, no stored interval covers a point of [begin, end) afterwards (a point query
  there fails with KeyError), and outside the window every point is covered by intervals
  carrying exactly the values that covered it before (with pairwise non-overlapping
  intervals, every point query outside returns what it returned before); nothing is
  inserted. In particular, after painting [0, 10) \<rightarrow> x on an empty config and deleting
  (3, 7), the point query at 5 fails with KeyError and the point queries at 0 and 9
  return x.
\<close>

theorem delete_gap:
  fixes t :: "('a::linorder) tree"
  assumes "b < e"
  shows "delete (KTuple [b, e]) t = (None, tree_chop b e t)
       \<and> (\<forall>p. b \<le> p \<and> p < e \<longrightarrow>
             (\<forall>x\<in>snd (delete (KTuple [b, e]) t). \<not> covers x p)
             \<and> lookup (KInt p) (snd (delete (KTuple [b, e]) t)) = Inl KeyError)
       \<and> (\<forall>p d. \<not> (b \<le> p \<and> p < e) \<longrightarrow>
             ((\<exists>x\<in>snd (delete (KTuple [b, e]) t). covers x p \<and> iv_data x = d)
               \<longleftrightarrow> (\<exists>x\<in>t. covers x p \<and> iv_data x = d)))
       \<and> (non_overlapping t \<longrightarrow> (\<forall>p. \<not> (b \<le> p \<and> p < e) \<longrightarrow>
             lookup (KInt p) (snd (delete (KTuple [b, e]) t)) = lookup (KInt p) t))
       \<and> (lookup (KInt 5) (snd (delete (KTuple [3, 7])
             (snd (configure iterate (KTuple [0, 10]) x {})))) = Inl KeyError
          \<and> lookup (KInt 0) (snd (delete (KTuple [3, 7])
             (snd (configure iterate (KTuple [0, 10]) x {})))) = Inr (Data x)
          \<and> lookup (KInt 9) (snd (delete (KTuple [3, 7])
             (snd (configure iterate (KTuple [0, 10]) x {})))) = Inr (Data x))"
proof -
  have inside: "\<forall>p. b \<le> p \<and> p < e \<longrightarrow>
             (\<forall>x\<in>snd (delete (KTuple [b, e]) t). \<not> covers x p)
             \<and> lookup (KInt p) (snd (delete (KTuple [b, e]) t)) = Inl KeyError"
  proof (intro allI impI)
    fix p assume p: "b \<le> p \<and> p < e"
    then have u: "\<forall>x\<in>tree_chop b e t. \<not> covers x p"
      using chop_uncovered [OF assms, of p _ t] by blast
    then have "cfg_value p (tree_chop b e t) = Inl KeyError" by (rule value_none)
    with u show "(\<forall>x\<in>snd (delete (KTuple [b, e]) t). \<not> covers x p)
             \<and> lookup (KInt p) (snd (delete (KTuple [b, e]) t)) = Inl KeyError"
      by (simp add: delete_pair lookup_point map_result_def)
  qed
  have outside: "\<forall>p d. \<not> (b \<le> p \<and> p < e) \<longrightarrow>
             ((\<exists>x\<in>snd (delete (KTuple [b, e]) t). covers x p \<and> iv_data x = d)
               \<longleftrightarrow> (\<exists>x\<in>t. covers x p \<and> iv_data x = d))"
  proof (intro allI impI)
    fix p d assume "\<not> (b \<le> p \<and> p < e)"
    with assms chop_outside [of b e p t d]
    show "(\<exists>x\<in>snd (delete (KTuple [b, e]) t). covers x p \<and> iv_data x = d)
               \<longleftrightarrow> (\<exists>x\<in>t. covers x p \<and> iv_data x = d)"
      by (simp only: delete_pair snd_conv) simp
  qed
  have same: "non_overlapping t \<longrightarrow> (\<forall>p. \<not> (b \<le> p \<and> p < e) \<longrightarrow>
             lookup (KInt p) (snd (delete (KTuple [b, e]) t)) = lookup (KInt p) t)"
    using assms by (simp add: delete_pair lookup_point chop_value_outside)
  show ?thesis
    using inside outside same gap_example [OF refl, of iterate x]
    by (intro conjI) (simp_all only: delete_pair)
qed

theorem delete_gap_witness:
  "(3::int) < 7
   \<and> delete (KTuple [3, 7]) {(0, 10, ''x'')} = (None, {(0, 3, ''x''), (7, 10, ''x'')})
   \<and> lookup (KInt 5) (snd (delete (KTuple [3, 7]) {(0, 10, ''x'')})) = Inl KeyError"
proof -
  have l: "(3::int) < 7" by simp
  have c: "tree_chop 3 7 {(0, 10, ''x'')} = {(0, 3, ''x''), (7, 10, ''x'')}" by code_simp
  note T = delete_gap [OF l, of "{(0, 10, ''x'')}" str_iterate "''x''", unfolded c]
  have a: "delete (KTuple [3, 7]) {(0, 10, ''x'')} = (None, {(0, 3, ''x''), (7, 10, ''x'')})"
    using T by (rule conjunct1)
  have "lookup (KInt 5) (snd (delete (KTuple [3, 7]) {(0, 10, ''x'')})) = Inl KeyError"
    using T [THEN conjunct2, THEN conjunct1, rule_format, of 5] by simp
  with a l show ?thesis by (simp only: simp_thms)
qed

section \<open>Stepped assignment\<close>

lemma le_div_iff_int:
  fixes m a s :: int
  assumes "0 < s"
  shows "m \<le> a div s \<longleftrightarrow> m * s \<le> a"
proof
  assume "m \<le> a div s"
  then have "m * s \<le> (a div s) * s" using assms by (simp add: mult_right_mono)
  also have "\<dots> \<le> a"
    using assms by (metis add.commute add_increasing div_mult_mod_eq mult.commute
        order_refl pos_mod_sign)
  finally show "m * s \<le> a" .
next
  assume "m * s \<le> a"
  then have "(m * s) div s \<le> a div s" using assms by (rule zdiv_mono1)
  then show "m \<le> a div s" using assms by simp
qed

lemma range_len_less:
  assumes "0 < step"
  shows "k < range_len start stop step \<longleftrightarrow> start + int k * step < stop"
proof -
  have "int k < (stop - start + step - 1) div step
      \<longleftrightarrow> (int k + 1) * step \<le> stop - start + step - 1"
    using le_div_iff_int [OF assms, of "int k + 1" "stop - start + step - 1"] by linarith
  also have "\<dots> \<longleftrightarrow> start + int k * step < stop"
  proof -
    have "(int k + 1) * step = int k * step + step" by (simp add: algebra_simps)
    then show ?thesis by linarith
  qed
  finally show ?thesis using assms by (simp add: range_len_def zless_nat_eq_int_zless)
qed

lemma zip_windows:
  "zip (butlast (map f [0..<n])) (zip (tl (map f [0..<n])) vs)
     = map (\<lambda>i. (f i, f (Suc i), vs ! i)) [0..<min (n - 1) (length vs)]"
  by (rule nth_equalityI) (auto simp add: nth_butlast nth_tl)


lemma finite_chop: "finite t \<Longrightarrow> finite (tree_chop b e t)"
  by (simp add: tree_chop_def Let_def tree_at_def)

lemma only_value_painted:
  assumes "b < e" "b \<le> p" "p < e" "finite t"
  shows "only_value (insert (b, e, v) (tree_chop b e t)) p v"
proof -
  have "\<not> covers x p" if "x \<in> tree_chop b e t" for x
    using chop_uncovered [OF assms(1-3) that] .
  then show ?thesis
    using assms by (auto simp add: only_value_def finite_chop covers_def)
qed

lemma only_value_kept:
  assumes "only_value t p v" "b < e" "\<not> (b \<le> p \<and> p < e)"
  shows "only_value (insert (b, e, v') (tree_chop b e t)) p v"
proof -
  have le: "b \<le> e" using assms(2) by simp
  from assms(1) obtain x where x: "x \<in> t" "covers x p" "iv_data x = v"
    by (auto simp add: only_value_def)
  then obtain x' where x': "x' \<in> tree_chop b e t" "covers x' p"
    using chop_outside [OF le assms(3), of t v] by blast
  have "iv_data y = v" if "y \<in> tree_chop b e t" "covers y p" for y
  proof -
    from that chop_outside [OF le assms(3), of t "iv_data y"]
    obtain z where "z \<in> t" "covers z p" "iv_data z = iv_data y" by blast
    with assms(1) show ?thesis by (auto simp add: only_value_def)
  qed
  moreover have "\<not> covers (b, e, v') p" using assms(3) by (simp add: covers_def)
  ultimately show ?thesis
    using assms(1) x' by (auto simp add: only_value_def finite_chop)
qed

lemma paint_each_no_error:
  "\<forall>w\<in>set ws. \<not> is_null w \<Longrightarrow> fst (paint_each ws t) = None"
proof (induction ws arbitrary: t)
  case Nil
  then show ?case by simp
next
  case (Cons w ws)
  obtain b e v where w: "w = (b, e, v)" by (cases w)
  with Cons.prems have "b < e" by (simp add: is_null_def)
  with Cons w show ?case by (simp add: set_interval_ok)
qed

lemma paint_each_append:
  "\<forall>w\<in>set xs. \<not> is_null w \<Longrightarrow>
     snd (paint_each (xs @ ys) t) = snd (paint_each ys (snd (paint_each xs t)))"
proof (induction xs arbitrary: t)
  case Nil
  then show ?case by simp
next
  case (Cons w ws)
  obtain b e v where w: "w = (b, e, v)" by (cases w)
  with Cons.prems have "b < e" by (simp add: is_null_def)
  with Cons w show ?case by (simp add: set_interval_ok)
qed

lemma paint_each_finite:
  "finite t \<Longrightarrow> finite (snd (paint_each ws t))"
proof (induction ws arbitrary: t)
  case Nil
  then show ?case by simp
next
  case (Cons w ws)
  obtain b e v where w: "w = (b, e, v)" by (cases w)
  obtain r t' where s: "set_interval b e v t = (r, t')" by (cases "set_interval b e v t")
  then have "finite t'"
    using Cons.prems
    by (auto simp add: set_interval_def tree_addi_def finite_chop split: if_splits)
  with Cons.IH [of t'] w s show ?case by (cases r) simp_all
qed

lemma only_value_kept_all:
  assumes "only_value t p v" "\<forall>w\<in>set ws. \<not> is_null w \<and> \<not> covers w p"
  shows "only_value (snd (paint_each ws t)) p v"
  using assms
proof (induction ws arbitrary: t)
  case Nil
  then show ?case by simp
next
  case (Cons w ws)
  obtain b e v' where w: "w = (b, e, v')" by (cases w)
  with Cons.prems have be: "b < e" and out: "\<not> (b \<le> p \<and> p < e)"
    by (simp_all add: is_null_def covers_def)
  have "only_value (insert (b, e, v') (tree_chop b e t)) p v"
    using Cons.prems(1) be out by (rule only_value_kept)
  with Cons.IH [of "insert (b, e, v') (tree_chop b e t)"] Cons.prems(2) w be
  show ?case by (simp add: set_interval_ok)
qed

lemma paint_each_nth_value:
  fixes t :: "('a::linorder) tree"
  assumes "finite t" "\<forall>w\<in>set ws. \<not> is_null w" "j < length ws" "covers (ws ! j) p"
    "\<forall>k. j < k \<and> k < length ws \<longrightarrow> \<not> covers (ws ! k) p"
  shows "cfg_value p (snd (paint_each ws t)) = Inr (iv_data (ws ! j))"
proof -
  obtain b e v where w: "ws ! j = (b, e, v)" by (cases "ws ! j")
  have split: "ws = take j ws @ (b, e, v) # drop (Suc j) ws"
    using assms(3) w by (metis id_take_nth_drop)
  have pre: "\<forall>w\<in>set (take j ws). \<not> is_null w"
    using assms(2) by (meson in_set_takeD)
  have be: "b < e" using assms(2,3) w nth_mem [OF assms(3)] by (auto simp add: is_null_def)
  let ?t0 = "snd (paint_each (take j ws) t)"
  let ?t1 = "insert (b, e, v) (tree_chop b e ?t0)"
  have f0: "finite ?t0" using assms(1) by (rule paint_each_finite)
  have "only_value ?t1 p v"
    using be assms(4) f0 unfolding w by (intro only_value_painted) (simp_all add: covers_def)
  moreover have "\<forall>w\<in>set (drop (Suc j) ws). \<not> is_null w \<and> \<not> covers w p"
  proof
    fix x assume "x \<in> set (drop (Suc j) ws)"
    then obtain i where i: "i < length (drop (Suc j) ws)" "x = drop (Suc j) ws ! i"
      by (auto simp add: in_set_conv_nth)
    then have "x = ws ! (Suc j + i)" "Suc j + i < length ws" by simp_all
    with assms(2,5) show "\<not> is_null x \<and> \<not> covers x p" by auto
  qed
  ultimately have "only_value (snd (paint_each (drop (Suc j) ws) ?t1)) p v"
    by (rule only_value_kept_all)
  moreover have "snd (paint_each ws t) = snd (paint_each (drop (Suc j) ws) ?t1)"
    by (subst split, subst paint_each_append [OF pre]) (simp add: set_interval_ok be)
  ultimately have "only_value (snd (paint_each ws t)) p v" by simp
  then show ?thesis
    unfolding w by (auto simp add: only_value_def intro: value_all_same)
qed

lemma configure_stepped:
  assumes "0 < step" "iterate v = Some vs"
  shows "configure iterate (KTuple [start, stop, step]) v t
       = paint_each (map (\<lambda>i. (start + int i * step, start + int (Suc i) * step, vs ! i))
           [0..<min (range_len start stop step - 1) (length vs)]) t"
  using assms
  by (simp add: configure_def paint_def py_range_def zip_windows)

lemma configure_slice:
  "configure iterate (KSlice (Some start) (Some stop) (Some step)) v t
     = configure iterate (KTuple [start, stop, step]) v t"
  by (simp add: configure_def)

lemma paint_each_coverage_outside:
  assumes "\<forall>w\<in>set ws. \<not> is_null w \<and> \<not> covers w p"
  shows "(\<exists>x\<in>snd (paint_each ws t). covers x p \<and> iv_data x = d)
       \<longleftrightarrow> (\<exists>x\<in>t. covers x p \<and> iv_data x = d)"
  using assms
proof (induction ws arbitrary: t)
  case Nil
  then show ?case by simp
next
  case (Cons w ws)
  obtain b e v where w: "w = (b, e, v)" by (cases w)
  with Cons.prems have be: "b < e" and out: "\<not> (b \<le> p \<and> p < e)"
    by (simp_all add: is_null_def covers_def)
  let ?t1 = "insert (b, e, v) (tree_chop b e t)"
  have "\<not> covers (b, e, v) p" using out by (simp add: covers_def)
  then have "(\<exists>x\<in>?t1. covers x p \<and> iv_data x = d)
      \<longleftrightarrow> (\<exists>x\<in>tree_chop b e t. covers x p \<and> iv_data x = d)" by auto
  also have "\<dots> \<longleftrightarrow> (\<exists>x\<in>t. covers x p \<and> iv_data x = d)"
    using be out by (intro chop_outside) simp_all
  finally have step: "(\<exists>x\<in>?t1. covers x p \<and> iv_data x = d)
      \<longleftrightarrow> (\<exists>x\<in>t. covers x p \<and> iv_data x = d)" .
  have "snd (paint_each (w # ws) t) = snd (paint_each ws ?t1)"
    using w be by (simp add: set_interval_ok)
  with Cons.IH [of ?t1] Cons.prems step show ?case by simp
qed

lemma paint_each_value_outside:
  fixes t :: "('a::linorder) tree"
  assumes "non_overlapping t" "\<forall>w\<in>set ws. \<not> is_null w \<and> \<not> covers w p"
  shows "cfg_value p (snd (paint_each ws t)) = cfg_value p t"
  using assms
proof (induction ws arbitrary: t)
  case Nil
  then show ?case by simp
next
  case (Cons w ws)
  obtain b e v where w: "w = (b, e, v)" by (cases w)
  with Cons.prems have be: "b < e" and out: "\<not> (b \<le> p \<and> p < e)"
    by (simp_all add: is_null_def covers_def)
  let ?t1 = "insert (b, e, v) (tree_chop b e t)"
  have n1: "non_overlapping ?t1" using be Cons.prems(1) by (rule paint_non_overlapping)
  have v1: "cfg_value p ?t1 = cfg_value p t"
    using Cons.prems(1) be out by (rule paint_value_outside)
  have "snd (paint_each (w # ws) t) = snd (paint_each ws ?t1)"
    using w be by (simp add: set_interval_ok)
  with Cons.IH [OF n1] Cons.prems(2) v1 show ?case by simp
qed

text \<open>
  C2 (as the specification states it). A stepped assignment with fewer values than
  sub-windows is claimed to fail with LengthMismatch before anything is painted. The code
  has no length check: the loop runs over \<open>zip\<close>, which stops at the shortest sequence.
  Painting [0, 9) with step 3 and the two values "a", "b" raises nothing and paints [0, 3)
  and [3, 6).
\<close>

theorem stepped_paint_short_values_counterexample:
  "length ''ab'' = 2 \<and> py_range 0 9 3 = Inr [0, 3, 6]
   \<and> configure str_iterate (KTuple [0, 9, 3]) ''ab'' {} = (None, {(0, 3, ''a''), (3, 6, ''b'')})"
  by code_simp

text \<open>
  C2 (amended). A stepped assignment makes no length check. With a positive step and an
  iterable value sequence it never raises, whatever the length of the sequence: the values
  are assigned in order to the leading sub-windows, so that for every i below the number
  of values whose sub-window [start + i*step, start + (i+1)*step) ends before stop, every
  point of that sub-window returns the i-th value afterwards. Sub-windows without a value
  are left as they were, and so is everything outside [start, stop): every point before
  start, from stop on, or from start + len(values)*step on is covered afterwards by
  intervals carrying exactly the values that covered it before and, when the stored
  intervals were pairwise non-overlapping, returns what it returned before. A slice key
  with the three fields given behaves as the tuple.
\<close>

theorem stepped_paint_no_length_check:
  fixes t :: "('a::linorder) tree"
  assumes "finite t" and "0 < step" and "iterate v = Some vs"
  shows "fst (configure iterate (KTuple [start, stop, step]) v t) = None
       \<and> configure iterate (KSlice (Some start) (Some stop) (Some step)) v t
           = configure iterate (KTuple [start, stop, step]) v t
       \<and> (\<forall>i p. i < length vs \<and> start + (int i + 1) * step < stop
               \<and> start + int i * step \<le> p \<and> p < start + (int i + 1) * step \<longrightarrow>
             lookup (KInt p) (snd (configure iterate (KTuple [start, stop, step]) v t))
               = Inr (Data (vs ! i)))
       \<and> (\<forall>p d. p < start \<or> stop \<le> p \<or> start + int (length vs) * step \<le> p \<longrightarrow>
             ((\<exists>x\<in>snd (configure iterate (KTuple [start, stop, step]) v t).
                 covers x p \<and> iv_data x = d)
               \<longleftrightarrow> (\<exists>x\<in>t. covers x p \<and> iv_data x = d)))
       \<and> (non_overlapping t \<longrightarrow>
            (\<forall>p. p < start \<or> stop \<le> p \<or> start + int (length vs) * step \<le> p \<longrightarrow>
               lookup (KInt p) (snd (configure iterate (KTuple [start, stop, step]) v t))
                 = lookup (KInt p) t))"
proof -
  let ?f = "\<lambda>i. start + int i * step"
  let ?m = "min (range_len start stop step - 1) (length vs)"
  let ?ws = "map (\<lambda>i. (?f i, ?f (Suc i), vs ! i)) [0..<?m]"
  have c: "configure iterate (KTuple [start, stop, step]) v t = paint_each ?ws t"
    using assms(2,3) by (rule configure_stepped)
  have ok: "\<forall>w\<in>set ?ws. \<not> is_null w"
    using assms(2) by (auto simp add: is_null_def algebra_simps)
  have no_err: "fst (configure iterate (KTuple [start, stop, step]) v t) = None"
    unfolding c using ok by (rule paint_each_no_error)
  have val: "lookup (KInt p) (snd (configure iterate (KTuple [start, stop, step]) v t))
               = Inr (Data (vs ! i))"
    if h: "i < length vs" "start + (int i + 1) * step < stop"
      "start + int i * step \<le> p" "p < start + (int i + 1) * step" for i p
  proof -
    have "start + int (Suc i) * step < stop" using h(2) by (simp add: algebra_simps)
    then have "Suc i < range_len start stop step" using range_len_less [OF assms(2)] by blast
    with h(1) have im: "i < ?m" by simp
    then have wi: "?ws ! i = (?f i, ?f (Suc i), vs ! i)" by simp
    have cov: "covers (?ws ! i) p"
      unfolding wi using h(3,4) by (simp add: covers_def algebra_simps)
    have later: "\<forall>k. i < k \<and> k < length ?ws \<longrightarrow> \<not> covers (?ws ! k) p"
    proof (intro allI impI)
      fix k assume k: "i < k \<and> k < length ?ws"
      then have "int i + 1 \<le> int k" by simp
      then have "(int i + 1) * step \<le> int k * step"
        using assms(2) by (simp add: mult_right_mono)
      with h(4) have "p < ?f k" by linarith
      with k show "\<not> covers (?ws ! k) p" by (simp add: covers_def)
    qed
    have d: "iv_data (?ws ! i) = vs ! i" using im by simp
    have "cfg_value p (snd (paint_each ?ws t)) = Inr (iv_data (?ws ! i))"
      using assms(1) ok _ cov later by (rule paint_each_nth_value) (use im in simp)
    then have "cfg_value p (snd (paint_each ?ws t)) = Inr (vs ! i)"
      by (simp only: d)
    then show ?thesis unfolding c lookup_point by (simp only: map_result_def sum.case)
  qed
  have away: "\<forall>w\<in>set ?ws. \<not> is_null w \<and> \<not> covers w p"
    if h: "p < start \<or> stop \<le> p \<or> start + int (length vs) * step \<le> p" for p
  proof
    fix w assume "w \<in> set ?ws"
    then obtain k where k: "k < ?m" "w = (?f k, ?f (Suc k), vs ! k)" by auto
    have lo: "start \<le> ?f k" using assms(2) by simp
    have "Suc k < range_len start stop step" using k(1) by linarith
    then have hi: "?f (Suc k) < stop" using range_len_less [OF assms(2)] by blast
    have "int (Suc k) \<le> int (length vs)" using k(1) by simp
    then have "int (Suc k) * step \<le> int (length vs) * step"
      using assms(2) by (intro mult_right_mono) simp_all
    then have hv: "?f (Suc k) \<le> start + int (length vs) * step" by simp
    have "\<not> covers w p"
      unfolding k(2) covers_def iv_begin_def iv_end_def fst_conv snd_conv
      using h lo hi hv by linarith
    moreover have "\<not> is_null w" using ok \<open>w \<in> set ?ws\<close> by blast
    ultimately show "\<not> is_null w \<and> \<not> covers w p" by simp
  qed
  have cover: "(\<exists>x\<in>snd (configure iterate (KTuple [start, stop, step]) v t).
                 covers x p \<and> iv_data x = d)
               \<longleftrightarrow> (\<exists>x\<in>t. covers x p \<and> iv_data x = d)"
    if "p < start \<or> stop \<le> p \<or> start + int (length vs) * step \<le> p" for p d
    unfolding c using away [OF that] by (rule paint_each_coverage_outside)
  have same: "lookup (KInt p) (snd (configure iterate (KTuple [start, stop, step]) v t))
                 = lookup (KInt p) t"
    if "non_overlapping t" "p < start \<or> stop \<le> p \<or> start + int (length vs) * step \<le> p"
    for p
    unfolding c lookup_point
    using paint_each_value_outside [OF that(1) away [OF that(2)]] by simp
  show ?thesis
  proof (intro conjI)
    show "fst (configure iterate (KTuple [start, stop, step]) v t) = None" by (rule no_err)
    show "configure iterate (KSlice (Some start) (Some stop) (Some step)) v t
           = configure iterate (KTuple [start, stop, step]) v t" by (rule configure_slice)
    show "\<forall>i p. i < length vs \<and> start + (int i + 1) * step < stop
               \<and> start + int i * step \<le> p \<and> p < start + (int i + 1) * step \<longrightarrow>
             lookup (KInt p) (snd (configure iterate (KTuple [start, stop, step]) v t))
               = Inr (Data (vs ! i))" using val by blast
    show "\<forall>p d. p < start \<or> stop \<le> p \<or> start + int (length vs) * step \<le> p \<longrightarrow>
             ((\<exists>x\<in>snd (configure iterate (KTuple [start, stop, step]) v t).
                 covers x p \<and> iv_data x = d)
               \<longleftrightarrow> (\<exists>x\<in>t. covers x p \<and> iv_data x = d))" using cover by blast
    show "non_overlapping t \<longrightarrow>
            (\<forall>p. p < start \<or> stop \<le> p \<or> start + int (length vs) * step \<le> p \<longrightarrow>
               lookup (KInt p) (snd (configure iterate (KTuple [start, stop, step]) v t))
                 = lookup (KInt p) t)" using same by blast
  qed
qed

theorem stepped_paint_no_length_check_witness:
  "finite {(0::int, 30::int, ''w'')} \<and> (0::int) < 3 \<and> str_iterate ''ab'' = Some [''a'', ''b'']
   \<and> non_overlapping {(0, 30, ''w'')}
   \<and> fst (configure str_iterate (KTuple [0, 9, 3]) ''ab'' {(0, 30, ''w'')}) = None
   \<and> lookup (KInt 4) (snd (configure str_iterate (KTuple [0, 9, 3]) ''ab'' {(0, 30, ''w'')}))
       = Inr (Data ''b'')
   \<and> lookup (KInt 7) (snd (configure str_iterate (KTuple [0, 9, 3]) ''ab'' {(0, 30, ''w'')}))
       = lookup (KInt 7) {(0, 30, ''w'')}"
proof -
  have f: "finite {(0::int, 30::int, ''w'')}" by simp
  have l: "(0::int) < 3" by simp
  have i: "str_iterate ''ab'' = Some [''a'', ''b'']" by (simp add: str_iterate_def)
  have n: "non_overlapping {(0, 30, ''w'')}" by code_simp
  note T = stepped_paint_no_length_check [where t = "{(0, 30, ''w'')}" and step = 3
      and iterate = str_iterate and v = "''ab''" and vs = "[''a'', ''b'']" and start = 0
      and stop = 9, OF f l i]
  have a: "fst (configure str_iterate (KTuple [0, 9, 3]) ''ab'' {(0, 30, ''w'')}) = None"
    using T by (rule conjunct1)
  have "lookup (KInt 4) (snd (configure str_iterate (KTuple [0, 9, 3]) ''ab'' {(0, 30, ''w'')}))
      = Inr (Data ([''a'', ''b''] ! 1))"
    using T [THEN conjunct2, THEN conjunct2, THEN conjunct1, rule_format, of 1 4] by simp
  then have b: "lookup (KInt 4)
      (snd (configure str_iterate (KTuple [0, 9, 3]) ''ab'' {(0, 30, ''w'')}))
      = Inr (Data ''b'')" by simp
  have c: "lookup (KInt 7) (snd (configure str_iterate (KTuple [0, 9, 3]) ''ab'' {(0, 30, ''w'')}))
      = lookup (KInt 7) {(0, 30, ''w'')}"
    using T [THEN conjunct2, THEN conjunct2, THEN conjunct2, THEN conjunct2, rule_format,
        OF n, of 7] by simp
  from f l i n a b c show ?thesis by (simp only: simp_thms)
qed

text \<open>
  C3 (evaluation of the code where it departs from the claim). The sub-windows are the
  pairs of consecutive elements of \<open>range(start, stop, step)\<close>, which never contains
  stop: the last sub-window, the one ending at stop, is not painted. For (0, 9, 3) the
  range is 0, 3, 6, so that "a", "b", "c" paint [0, 3) and [3, 6) only and the points 6..8
  stay uncovered, although a stepped lookup over the same key reads the three points 0, 3
  and 6.
\<close>

theorem stepped_paint_drops_last_window:
  "py_range 0 9 3 = Inr [0, 3, 6]
   \<and> configure str_iterate (KTuple [0, 9, 3]) ''abc'' {} = (None, {(0, 3, ''a''), (3, 6, ''b'')})
   \<and> lookup (KInt 6) (snd (configure str_iterate (KTuple [0, 9, 3]) ''abc'' {})) = Inl KeyError
   \<and> lookup (KInt 8) (snd (configure str_iterate (KTuple [0, 9, 3]) ''abc'' {})) = Inl KeyError
   \<and> lookup (KSlice (Some 0) (Some 9) (Some 3)) {(0, 3, ''a''), (3, 6, ''b''), (6, 9, ''c'')}
       = Inr (DataList [''a'', ''b'', ''c''])"
  by code_simp

section \<open>Containment\<close>

text \<open>
  C8 (evaluation of the code where it departs from the claim). The containment test is
  \<open>bool(self[key])\<close>: for a point that no stored interval covers the lookup raises
  KeyError, and the test raises it too instead of returning False; for a covered point
  whose value is false (the empty string), the lookup succeeds and the test is False.
\<close>

theorem contains_uncovered_point_raises:
  "contains truthy subscript (KInt 5) ({} :: string tree) = Inl KeyError
   \<and> lookup (KInt 5) {(0, 10, [] :: string)} = Inr (Data [])
   \<and> contains str_truthy subscript (KInt 5) {(0, 10, [] :: string)} = Inr False"
proof -
  have "cfg_value 5 ({} :: string tree) = Inl KeyError"
    by (simp add: cfg_value_def tree_at_def)
  moreover have "cfg_value 5 {(0, 10, [] :: string)} = Inr []"
    by code_simp
  ultimately show ?thesis
    by (simp add: contains_def getitem_def lookup_point map_result_def py_bool_def
        str_truthy_def)
qed

section \<open>Range queries\<close>

lemma tree_overlap_window:
  assumes "no_null t"
  shows "tree_overlap b e t = {x \<in> t. overlaps_window x b e}"
  using assms
  by (auto simp add: tree_overlap_def overlaps_window_def no_null_def is_null_def)

lemma sorted_begins:
  fixes hits :: "('a::linorder) interval list"
  assumes "sorted hits"
  shows "sorted (map iv_begin hits)"
proof -
  have "iv_begin x \<le> iv_begin y" if "x \<le> y" for x y :: "'a interval"
    using that by (auto simp add: iv_begin_def less_eq_prod_def)
  then show ?thesis
    using assms by (simp add: sorted_map sorted_wrt_mono_rel [of hits "(\<le>)"])
qed

lemma lookup_pair: "lookup (KTuple [b, e]) t = Inr (overlap_content b e t)"
  by (simp add: lookup_def)

lemma lookup_label:
  "label_to_key s = Inr ks \<Longrightarrow> lookup (KStr s) t = lookup (KTuple ks) t"
  by (simp add: lookup_def)

text \<open>
  C5. For every lookup with a 2-element (begin, end) key on a well-formed index: if exactly
  one stored interval overlaps [begin, end), the result is that interval's value itself,
  not wrapped in a list; if two or more stored intervals overlap it, the result is the
  list of the values of exactly these intervals, each once, in the order of the interval
  starts. A string label that decodes to (begin, end) gives the same result.
\<close>

theorem range_overlap_unwrap:
  fixes t :: "('a::linorder) tree"
  assumes "finite t" and "no_null t"
  shows "(\<forall>iv. {x \<in> t. overlaps_window x b e} = {iv} \<longrightarrow>
            lookup (KTuple [b, e]) t = Inr (Data (iv_data iv)))
       \<and> (2 \<le> card {x \<in> t. overlaps_window x b e} \<longrightarrow>
            (\<exists>hits. lookup (KTuple [b, e]) t = Inr (DataList (map iv_data hits))
               \<and> set hits = {x \<in> t. overlaps_window x b e} \<and> distinct hits
               \<and> sorted (map iv_begin hits)))
       \<and> (\<forall>s. label_to_key s = Inr [b, e] \<longrightarrow> lookup (KStr s) t = lookup (KTuple [b, e]) t)"
proof -
  let ?S = "{x \<in> t. overlaps_window x b e}"
  let ?hits = "sorted_list_of_set ?S"
  have S: "tree_overlap b e t = ?S" using assms(2) by (rule tree_overlap_window)
  have f: "finite ?S" using assms(1) by simp
  have one: "lookup (KTuple [b, e]) t = Inr (Data (iv_data iv))" if "?S = {iv}" for iv
    by (simp add: lookup_pair overlap_content_def S that)
  have many: "\<exists>hits. lookup (KTuple [b, e]) t = Inr (DataList (map iv_data hits))
               \<and> set hits = ?S \<and> distinct hits \<and> sorted (map iv_begin hits)"
    if "2 \<le> card ?S"
  proof -
    have "length ?hits \<noteq> 1" using that by simp
    then have "lookup (KTuple [b, e]) t = Inr (DataList (map iv_data ?hits))"
      by (simp add: lookup_pair overlap_content_def S)
    moreover have "set ?hits = ?S" using f by simp
    moreover have "distinct ?hits" by simp
    moreover have "sorted (map iv_begin ?hits)" by (rule sorted_begins) simp
    ultimately show ?thesis by blast
  qed
  show ?thesis using one many by (simp add: lookup_label)
qed

theorem range_overlap_unwrap_witness:
  "finite {(0::int, 3::int, ''x''), (3, 7, ''y''), (7, 10, ''x'')}
   \<and> no_null {(0, 3, ''x''), (3, 7, ''y''), (7, 10, ''x'')}
   \<and> lookup (KTuple [4, 6]) {(0, 3, ''x''), (3, 7, ''y''), (7, 10, ''x'')} = Inr (Data ''y'')
   \<and> lookup (KTuple [2, 8]) {(0, 3, ''x''), (3, 7, ''y''), (7, 10, ''x'')}
       = Inr (DataList [''x'', ''y'', ''x''])
   \<and> lookup (KStr ''4-6'') {(0, 3, ''x''), (3, 7, ''y''), (7, 10, ''x'')}
       = lookup (KTuple [4, 6]) {(0, 3, ''x''), (3, 7, ''y''), (7, 10, ''x'')}"
proof -
  let ?t = "{(0::int, 3::int, ''x''), (3, 7, ''y''), (7, 10, ''x'')}"
  have f: "finite ?t" by simp
  have n: "no_null ?t" by code_simp
  have s: "{x \<in> ?t. overlaps_window x 4 6} = {(3, 7, ''y'')}" by code_simp
  have l: "label_to_key ''4-6'' = Inr [4, 6]" by code_simp
  have m: "lookup (KTuple [2, 8]) ?t = Inr (DataList [''x'', ''y'', ''x''])" by code_simp
  note T = range_overlap_unwrap [OF f n, of 4 6]
  have "lookup (KTuple [4, 6]) ?t = Inr (Data ''y'')"
    using T [THEN conjunct1, rule_format, OF s] by simp
  moreover have "lookup (KStr ''4-6'') ?t = lookup (KTuple [4, 6]) ?t"
    using T [THEN conjunct2, THEN conjunct2, rule_format, OF l] .
  ultimately show ?thesis using f n m by (simp only: simp_thms)
qed

section \<open>Snapshots\<close>

lemma chop_sound: "well_formed t \<Longrightarrow> well_formed (tree_chop b e t)"
  unfolding well_formed_def
proof
  assume a: "finite t \<and> no_null t"
  then show "finite (tree_chop b e t)"
    by (simp add: tree_chop_def Let_def tree_at_def)
  show "no_null (tree_chop b e t)"
    unfolding no_null_def
  proof
    fix x assume "x \<in> tree_chop b e t"
    then show "\<not> is_null x"
      using a unfolding tree_chop_iff no_null_def by (auto simp add: is_null_def)
  qed
qed

lemma addi_sound: "well_formed t \<Longrightarrow> well_formed (snd (tree_addi b e v t))"
  by (auto simp add: tree_addi_def no_null_def well_formed_def)

lemma set_interval_sound: "well_formed t \<Longrightarrow> well_formed (snd (set_interval b e v t))"
  unfolding set_interval_def by (intro addi_sound chop_sound)

lemma paint_each_sound: "well_formed t \<Longrightarrow> well_formed (snd (paint_each ws t))"
proof (induction ws arbitrary: t)
  case Nil
  then show ?case by simp
next
  case (Cons w ws)
  obtain b e v where w: "w = (b, e, v)" by (cases w)
  obtain r t' where s: "set_interval b e v t = (r, t')" by (cases "set_interval b e v t")
  from set_interval_sound [OF Cons.prems, of b e v] s have t': "well_formed t'" by simp
  show ?case
  proof (cases r)
    case None
    with Cons.IH [OF t'] w s show ?thesis by simp
  next
    case (Some err)
    with t' w s show ?thesis by simp
  qed
qed

lemma paint_sound: "well_formed t \<Longrightarrow> well_formed (snd (paint iterate a b c v t))"
  unfolding paint_def Let_def
  by (simp add: set_interval_sound paint_each_sound split: option.splits sum.splits)

lemma configure_key_sound: "well_formed t \<Longrightarrow> well_formed (snd (configure_key iterate k v t))"
  by (cases k) (simp_all add: paint_sound)

lemma configure_sound: "well_formed t \<Longrightarrow> well_formed (snd (configure iterate k v t))"
  unfolding configure_def
  by (cases k) (simp_all add: configure_key_sound paint_sound split: sum.splits)

lemma run_configure_sound: "well_formed t \<Longrightarrow> well_formed (run_configure iterate ops t)"
proof (induction ops arbitrary: t)
  case Nil
  then show ?case by simp
next
  case (Cons op ops)
  obtain k v where "op = (k, v)" by (cases op)
  with Cons.IH [OF configure_sound [OF Cons.prems, of iterate k v]] show ?case by simp
qed

lemma sorted_bounds:
  fixes hits :: "('a::linorder) interval list"
  assumes "sorted hits"
  shows "sorted (map (\<lambda>iv. (iv_begin iv, iv_end iv)) hits)"
proof -
  have "(iv_begin x, iv_end x) \<le> (iv_begin y, iv_end y)" if "x \<le> y" for x y :: "'a interval"
    using that by (auto simp add: iv_begin_def iv_end_def less_eq_prod_def less_prod_def)
  then show ?thesis
    using assms by (simp add: sorted_map sorted_wrt_mono_rel [of hits "(\<le>)"])
qed

lemma setstate_getstate:
  fixes t :: "('a::linorder) tree"
  assumes "finite t" "no_null t"
  shows "setstate (getstate t) = Inr t"
  using assms by (simp add: setstate_def getstate_def tree_of_def list_ex_iff no_null_def)

text \<open>
  C9. For every IntervalConfig reached from the empty one by any sequence of paint
  operations (assignments with any keys and values, failed ones included), the snapshot
  holds exactly the stored (begin, end, value) triples, each once, sorted by (begin, end),
  and restoring from that snapshot succeeds and yields the same index, so that every
  point query gives the same result as on the original. The snapshot is a function of the
  set of stored triples, so it does not depend on the order of insertion.
\<close>

theorem snapshot_round_trip:
  fixes t :: "('a::linorder) tree"
  assumes "t = run_configure iterate ops {}"
  shows "set (getstate t) = t \<and> distinct (getstate t)
       \<and> sorted (map (\<lambda>iv. (iv_begin iv, iv_end iv)) (getstate t))
       \<and> setstate (getstate t) = Inr t
       \<and> (\<forall>t'. setstate (getstate t) = Inr t' \<longrightarrow>
            (\<forall>p. lookup (KInt p) t' = lookup (KInt p) t))"
proof -
  have "well_formed t"
    unfolding assms by (rule run_configure_sound) (simp add: well_formed_def no_null_def)
  then have w: "finite t \<and> no_null t" by (simp add: well_formed_def)
  then have "setstate (getstate t) = Inr t" by (simp add: setstate_getstate)
  moreover have "sorted (map (\<lambda>iv. (iv_begin iv, iv_end iv)) (getstate t))"
    by (rule sorted_bounds) (simp add: getstate_def)
  ultimately show ?thesis using w by (simp add: getstate_def)
qed

theorem snapshot_round_trip_witness:
  "getstate (run_configure str_iterate [(KTuple [5, 15], ''y''), (KTuple [0, 10], ''x'')] {})
     = [(0, 10, ''x''), (10, 15, ''y'')]
   \<and> setstate [(0, 10, ''x''), (10, 15, ''y'')]
     = Inr (run_configure str_iterate [(KTuple [5, 15], ''y''), (KTuple [0, 10], ''x'')] {})"
proof -
  let ?t = "run_configure str_iterate [(KTuple [5, 15], ''y''), (KTuple [0, 10], ''x'')] {}"
  have g: "getstate ?t = [(0, 10, ''x''), (10, 15, ''y'')]" by code_simp
  from snapshot_round_trip [OF refl, of str_iterate "[(KTuple [5, 15], ''y''), (KTuple [0, 10], ''x'')]"]
  have "setstate (getstate ?t) = Inr ?t" by blast
  with g show ?thesis by simp
qed

section \<open>Deleting with a label\<close>

text \<open>
  C10. Deleting with a string label is a silent no-op: for every state of the index and
  every label that decodes without error (such as "3-7"), \<open>delete\<close> raises nothing and
  leaves the index as it was, because the string branch only decodes the label.
\<close>

theorem delete_label_no_op:
  "label_to_key s = Inr ks \<Longrightarrow> delete (KStr s) t = (None, t)"
  by (simp add: delete_def)

theorem delete_label_no_op_witness:
  "label_to_key ''3-7'' = Inr [3, 7]
   \<and> delete (KStr ''3-7'') {(0, 10, ''x'')} = (None, {(0, 10, ''x'')})"
proof -
  have d: "label_to_key ''3-7'' = Inr [3, 7]" by code_simp
  show ?thesis using d delete_label_no_op [OF d, of "{(0, 10, ''x'')}"] by simp
qed

end
